theory Spec2Isabelle
  imports Complex_Main
begin

section \<open>Emotion-driven song player: rotation policy and playback state machine\<close>

text \<open>
  A shallow embedding of \<^verbatim>\<open>app.py\<close>. The module keeps its state in global
  variables; the model passes them explicitly. The song catalogue
  \<^verbatim>\<open>emotion_to_songs\<close> is a module constant that every function reads; the model
  takes it as the parameter \<open>cat\<close>, and the constant of the source is
  \<open>emotion_to_songs\<close> below. The outcome of \<^verbatim>\<open>random.choice\<close> is decided by a
  natural number \<open>r\<close> supplied by the caller: every element of the sequence is chosen
  by some \<open>r\<close>, and every \<open>r\<close> chooses an element of the sequence, so a statement for
  all \<open>r\<close> covers every run of the program, whatever the iteration order of the
  Python set.
\<close>

subsection \<open>Configuration\<close>

type_synonym catalog = "string \<rightharpoonup> string list"
type_synonym history = "string \<rightharpoonup> string list"

definition emotion_to_songs :: catalog where
  "emotion_to_songs =
     [''happy'' \<mapsto> [''happy1.mp3'', ''happy2.mp3''],
      ''sad'' \<mapsto> [''sad1.mp3'', ''sad2.mp3''],
      ''angry'' \<mapsto> [''angry1.mp3'', ''angry2.mp3''],
      ''neutral'' \<mapsto> [''neutral1.mp3'', ''neutral2.mp3'']]"

text \<open>\<^verbatim>\<open>played_songs = {emotion: [] for emotion in emotion_to_songs}\<close>\<close>

definition init_played :: "catalog \<Rightarrow> history" where
  "init_played cat = (\<lambda>e. case cat e of None \<Rightarrow> None | Some ss \<Rightarrow> Some [])"

text \<open>\<^verbatim>\<open>DETECT_INTERVAL = 0.8\<close>\<close>

definition DETECT_INTERVAL :: real where
  "DETECT_INTERVAL = 8 / 10"

subsection \<open>Errors\<close>

datatype py_error = KeyError string | IndexError | NameError string

subsection \<open>Song rotation policy\<close>

text \<open>
  \<^verbatim>\<open>random.choice(seq)\<close> raises IndexError on an empty sequence and returns one of
  its elements otherwise.
\<close>

definition random_choice :: "nat \<Rightarrow> 'a list \<Rightarrow> py_error + 'a" where
  "random_choice r xs =
     (if xs = [] then Inl IndexError else Inr (xs ! (r mod length xs)))"

text \<open>
  \<^verbatim>\<open>
  def get_next_song(emotion):
      songs = emotion_to_songs.get(emotion, [])
      if not songs:
          return None
      if len(played_songs[emotion]) == len(songs):
          played_songs[emotion] = []
      remaining = list(set(songs) - set(played_songs[emotion]))
      choice = random.choice(remaining)
      played_songs[emotion].append(choice)
      return choice
  \<close>
  The result is the returned value together with the updated \<^verbatim>\<open>played_songs\<close>.
\<close>

definition get_next_song ::
  "catalog \<Rightarrow> nat \<Rightarrow> history \<Rightarrow> string \<Rightarrow> py_error + (string option \<times> history)" where
  "get_next_song cat r played emotion =
     (let songs = (case cat emotion of None \<Rightarrow> [] | Some ss \<Rightarrow> ss) in
      if songs = [] then Inr (None, played)
      else
        (case played emotion of
           None \<Rightarrow> Inl (KeyError emotion)
         | Some seen0 \<Rightarrow>
             (let seen = (if length seen0 = length songs then [] else seen0);
                  remaining = filter (\<lambda>x. x \<notin> set seen) (remdups songs)
              in case random_choice r remaining of
                   Inl err \<Rightarrow> Inl err
                 | Inr choice \<Rightarrow> Inr (Some choice, played(emotion \<mapsto> seen @ [choice])))))"

text \<open>Consecutive calls for one category, one random draw each.\<close>

fun picks ::
  "catalog \<Rightarrow> string \<Rightarrow> nat list \<Rightarrow> history \<Rightarrow> py_error + (string option list \<times> history)" where
  "picks cat e [] played = Inr ([], played)"
| "picks cat e (r # rs) played =
     (case get_next_song cat r played e of
        Inl err \<Rightarrow> Inl err
      | Inr (c, played') \<Rightarrow>
          (case picks cat e rs played' of
             Inl err \<Rightarrow> Inl err
           | Inr (cs, played'') \<Rightarrow> Inr (c # cs, played'')))"

subsection \<open>Playback state\<close>

record state =
  current_emotion :: "string option"
  next_emotion :: "string option"
  current_confidence :: real
  current_song :: "string option"
  song_assigned :: bool
  song_playing :: bool
  played_songs :: history

definition init_state :: "catalog \<Rightarrow> state" where
  "init_state cat =
     \<lparr>current_emotion = None, next_emotion = None, current_confidence = 0,
      current_song = None, song_assigned = False, song_playing = False,
      played_songs = init_played cat\<rparr>"

text \<open>\<^verbatim>\<open>next_emotion or "neutral"\<close>: None and the empty string are falsy.\<close>

definition or_neutral :: "string option \<Rightarrow> string" where
  "or_neutral e = (case e of None \<Rightarrow> ''neutral'' | Some d \<Rightarrow> if d = [] then ''neutral'' else d)"

text \<open>
  The critical section of the detection tick (the body of \<^verbatim>\<open>with state_lock\<close> in
  \<^verbatim>\<open>mjpeg_generator\<close>). \<open>dominant\<close> and \<open>confidence\<close> are the classifier's result,
  \<open>file_exists\<close> answers \<^verbatim>\<open>os.path.exists(os.path.join(SONG_DIR, chosen))\<close> and \<open>r\<close>
  is the random draw.
  \<^verbatim>\<open>
  next_emotion = dominant
  current_confidence = float(confidence)
  if not song_assigned and not song_playing:
      current_emotion = next_emotion or "neutral"
      chosen = get_next_song(current_emotion)
      if chosen and os.path.exists(os.path.join(SONG_DIR, chosen)):
          current_song = chosen
          song_assigned = True
      else:
          current_song = None
          song_assigned = False
  \<close>
\<close>

definition detect_tick ::
  "catalog \<Rightarrow> string \<Rightarrow> real \<Rightarrow> (string \<Rightarrow> bool) \<Rightarrow> nat \<Rightarrow> state \<Rightarrow> py_error + state" where
  "detect_tick cat dominant confidence file_exists r s =
     (let s1 = s\<lparr>next_emotion := Some dominant, current_confidence := confidence\<rparr> in
      if \<not> song_assigned s1 \<and> \<not> song_playing s1 then
        (let s2 = s1\<lparr>current_emotion := Some (or_neutral (next_emotion s1))\<rparr> in
         case get_next_song cat r (played_songs s2) (or_neutral (next_emotion s1)) of
           Inl err \<Rightarrow> Inl err
         | Inr (chosen, played') \<Rightarrow>
             (let s3 = s2\<lparr>played_songs := played'\<rparr> in
              case chosen of
                None \<Rightarrow> Inr (s3\<lparr>current_song := None, song_assigned := False\<rparr>)
              | Some c \<Rightarrow>
                  if c \<noteq> [] \<and> file_exists c
                  then Inr (s3\<lparr>current_song := Some c, song_assigned := True\<rparr>)
                  else Inr (s3\<lparr>current_song := None, song_assigned := False\<rparr>)))
      else Inr s1)"

text \<open>
  The two notification routes; both answer \<^verbatim>\<open>jsonify({"ok": True})\<close>.
  \<^verbatim>\<open>
  def song_started():
      with state_lock:
          song_playing = True
      return jsonify({"ok": True})

  def song_ended():
      with state_lock:
          song_playing = False
          song_assigned = False
          current_song = None
      return jsonify({"ok": True})
  \<close>
\<close>

type_synonym response = "(string \<times> bool) list"

definition song_started :: "state \<Rightarrow> state \<times> response" where
  "song_started s = (s\<lparr>song_playing := True\<rparr>, [(''ok'', True)])"

definition song_ended :: "state \<Rightarrow> state \<times> response" where
  "song_ended s =
     (s\<lparr>song_playing := False, song_assigned := False, current_song := None\<rparr>,
      [(''ok'', True)])"

subsection \<open>The detection loop\<close>

text \<open>
  The classifier's answer for one frame is a list of faces, each with its scores by
  emotion label (the dictionary under \<^verbatim>\<open>"emotions"\<close>, empty when the key is absent);
  an exception of the classifier gives the empty list.
  \<^verbatim>\<open>
  if results:
      emotions = results[0].get("emotions", {})
      if emotions:
          dominant = max(emotions, key=emotions.get)
          confidence = emotions.get(dominant, 0.0)
      else:
          dominant = "neutral"; confidence = 0.0
  else:
      dominant = "neutral"; confidence = 0.0
  \<close>
  \<^verbatim>\<open>max\<close> keeps the first of several maximal keys.
\<close>

fun max_key :: "string \<times> real \<Rightarrow> (string \<times> real) list \<Rightarrow> string \<times> real" where
  "max_key best [] = best"
| "max_key best (kv # rest) = max_key (if snd best < snd kv then kv else best) rest"

definition classify :: "(string \<times> real) list list \<Rightarrow> string \<times> real" where
  "classify results =
     (case results of
        [] \<Rightarrow> (''neutral'', 0)
      | emotions # others \<Rightarrow>
          (case emotions of [] \<Rightarrow> (''neutral'', 0) | kv # rest \<Rightarrow> max_key kv rest))"

text \<open>
  The names bound in the module's namespace when \<^verbatim>\<open>mjpeg_generator\<close> runs: those of
  the import statements and of the top-level assignments and function definitions. A
  name that is neither local, nor in this list, nor a builtin raises NameError when
  it is evaluated.
\<close>

definition module_globals :: "string list" where
  "module_globals =
     [''os'', ''time'', ''random'', ''threading'', ''BytesIO'', ''Flask'',
      ''render_template'', ''Response'', ''jsonify'', ''request'', ''send_from_directory'',
      ''cv2'', ''FER'', ''app'', ''SONG_DIR'', ''emotion_to_songs'', ''detector'',
      ''camera'', ''state_lock'', ''played_songs'', ''current_emotion'', ''next_emotion'',
      ''current_confidence'', ''current_song'', ''song_assigned'', ''song_playing'',
      ''DETECT_INTERVAL'', ''get_next_song'', ''ensure_camera_open'', ''mjpeg_generator'',
      ''index'', ''video_feed'', ''get_state'', ''song_started'', ''song_ended'',
      ''cleanup'', ''atexit'']"

definition global_name :: "string \<Rightarrow> py_error + unit" where
  "global_name n = (if n \<in> set module_globals then Inr () else Inl (NameError n))"

text \<open>
  One iteration of \<^verbatim>\<open>while True\<close> in \<^verbatim>\<open>mjpeg_generator\<close>. The inputs of the
  iteration are what its collaborators answer: whether \<^verbatim>\<open>ensure_camera_open()\<close>
  succeeds, whether \<^verbatim>\<open>camera.read()\<close> delivers a frame, the clock, the classifier's
  result, the file system, the random draw and whether the JPEG encoding succeeds. The
  result is the chunk yielded (if any) with the new global state and the new value of
  the local \<^verbatim>\<open>last_detection\<close>; the pauses of \<^verbatim>\<open>time.sleep\<close> are not modelled.
  \<^verbatim>\<open>
  if not ensure_camera_open():
      blank = 255 * (np.ones((480, 640, 3), dtype="uint8"))
      ret, buf = cv2.imencode(".jpg", blank)
      yield (... + buf.tobytes() + ...)
      time.sleep(0.5)
      continue
  ret, frame = camera.read()
  if not ret:
      time.sleep(0.02)
      continue
  now = time.time()
  if now - last_detection >= DETECT_INTERVAL:
      ... classifier and critical section ...
      last_detection = now
  ret2, buf = cv2.imencode(".jpg", frame)
  if not ret2:
      time.sleep(0.01)
      continue
  yield (... + buf.tobytes() + ...)
  \<close>
\<close>

datatype chunk = Blank_Frame | Camera_Frame

record tick =
  cam_opened :: bool
  read_ok :: bool
  now :: real
  results :: "(string \<times> real) list list"
  file_exists :: "string \<Rightarrow> bool"
  draw :: nat
  encode_ok :: bool

definition loop_iteration ::
  "catalog \<Rightarrow> tick \<Rightarrow> state \<times> real \<Rightarrow> py_error + (chunk option \<times> state \<times> real)" where
  "loop_iteration cat t sl =
     (case sl of (s, last_detection) \<Rightarrow>
        if \<not> cam_opened t then
          (case global_name ''np'' of
             Inl err \<Rightarrow> Inl err
           | Inr u \<Rightarrow> Inr (Some Blank_Frame, s, last_detection))
        else if \<not> read_ok t then Inr (None, s, last_detection)
        else
          (case (if DETECT_INTERVAL \<le> now t - last_detection then
                   (case classify (results t) of
                      (dominant, confidence) \<Rightarrow>
                        (case detect_tick cat dominant confidence (file_exists t) (draw t) s of
                           Inl err \<Rightarrow> Inl err
                         | Inr s' \<Rightarrow> Inr (s', now t)))
                 else Inr (s, last_detection)) of
             Inl err \<Rightarrow> Inl err
           | Inr sl' \<Rightarrow>
               if \<not> encode_ok t then Inr (None, sl') else Inr (Some Camera_Frame, sl')))"

subsection \<open>Events of the state machine\<close>

text \<open>
  The three operations that write the shared state, each atomic under
  \<^verbatim>\<open>state_lock\<close>: a detection tick with its inputs, and the two notifications of
  the client.
\<close>

datatype event =
    Detect string real "string \<Rightarrow> bool" nat
  | ClientStarted
  | ClientEnded

fun step :: "catalog \<Rightarrow> event \<Rightarrow> state \<Rightarrow> py_error + state" where
  "step cat (Detect dominant confidence fx r) s = detect_tick cat dominant confidence fx r s"
| "step cat ClientStarted s = Inr (fst (song_started s))"
| "step cat ClientEnded s = Inr (fst (song_ended s))"

fun run :: "catalog \<Rightarrow> event list \<Rightarrow> state \<Rightarrow> py_error + state" where
  "run cat [] s = Inr s"
| "run cat (ev # evs) s =
     (case step cat ev s of Inl err \<Rightarrow> Inl err | Inr s' \<Rightarrow> run cat evs s')"

text \<open>A sequence of calls of \<open>get_next_song\<close>, each with its category and its draw.\<close>

fun pick_seq :: "catalog \<Rightarrow> (string \<times> nat) list \<Rightarrow> history \<Rightarrow> py_error + history" where
  "pick_seq cat [] played = Inr played"
| "pick_seq cat ((e, r) # reqs) played =
     (case get_next_song cat r played e of
        Inl err \<Rightarrow> Inl err
      | Inr (c, played') \<Rightarrow> pick_seq cat reqs played')"

subsection \<open>Well-formed histories\<close>

text \<open>
  The history of category \<open>e\<close> is well formed when it has an entry exactly if the
  catalogue has one, the songs of the category are pairwise different and the history
  is a repetition-free selection of them.
\<close>

definition hist_ok :: "catalog \<Rightarrow> history \<Rightarrow> string \<Rightarrow> bool" where
  "hist_ok cat played e =
     (case cat e of
        None \<Rightarrow> played e = None
      | Some songs \<Rightarrow>
          (case played e of
             None \<Rightarrow> False
           | Some seen \<Rightarrow> distinct songs \<and> distinct seen \<and> set seen \<subseteq> set songs))"

definition hist_size :: "history \<Rightarrow> string \<Rightarrow> nat" where
  "hist_size played e = (case played e of None \<Rightarrow> 0 | Some seen \<Rightarrow> length seen)"

definition cat_size :: "catalog \<Rightarrow> string \<Rightarrow> nat" where
  "cat_size cat e = (case cat e of None \<Rightarrow> 0 | Some songs \<Rightarrow> length songs)"

subsection \<open>Facts about the rotation policy\<close>

lemma random_choice_in:
  "xs \<noteq> [] \<Longrightarrow> \<exists>x. x \<in> set xs \<and> random_choice r xs = Inr x"
  by (simp add: random_choice_def)

lemma random_choice_mem: "random_choice r xs = Inr x \<Longrightarrow> x \<in> set xs"
  by (auto simp: random_choice_def split: if_splits)

lemma remaining_nonempty:
  assumes "distinct seen" "set seen \<subseteq> set songs" "length seen < length songs" "distinct songs"
  shows "filter (\<lambda>x. x \<notin> set seen) songs \<noteq> []"
proof -
  have "card (set seen) < card (set songs)"
    using assms by (simp add: distinct_card)
  then have "\<not> set songs \<subseteq> set seen"
    by (meson List.finite_set card_mono not_less)
  then show ?thesis
    by (auto simp: filter_empty_conv)
qed

lemma seen_length_le:
  assumes "distinct seen" "set seen \<subseteq> set songs"
  shows "length seen \<le> length songs"
proof -
  have "card (set seen) \<le> card (set songs)"
    using assms by (simp add: card_mono)
  then show ?thesis
    using assms(1) by (metis card_length distinct_card le_trans)
qed

lemma get_next_song_mid:
  assumes "cat e = Some songs" "played e = Some seen" "distinct songs" "distinct seen"
    "set seen \<subseteq> set songs" "length seen < length songs"
  shows "\<exists>c. c \<in> set songs \<and> c \<notin> set seen \<and>
           get_next_song cat r played e = Inr (Some c, played(e \<mapsto> seen @ [c]))"
proof -
  let ?rem = "filter (\<lambda>x. x \<notin> set seen) songs"
  have ne: "?rem \<noteq> []" using assms by (intro remaining_nonempty) auto
  from random_choice_in [OF ne] obtain c where c: "c \<in> set ?rem" "random_choice r ?rem = Inr c"
    by blast
  have "songs \<noteq> []" using assms(6) by auto
  then have "get_next_song cat r played e = Inr (Some c, played(e \<mapsto> seen @ [c]))"
    using assms c by (simp add: get_next_song_def distinct_remdups_id)
  then show ?thesis using c(1) by auto
qed

lemma get_next_song_reset:
  assumes "cat e = Some songs" "played e = Some seen" "distinct songs" "songs \<noteq> []"
    "length seen = length songs"
  shows "get_next_song cat r played e
           = Inr (Some (songs ! (r mod length songs)), played(e \<mapsto> [songs ! (r mod length songs)]))"
  using assms by (simp add: get_next_song_def random_choice_def distinct_remdups_id Let_def)

lemma get_next_song_from_catalog:
  assumes "get_next_song cat r played e = Inr (Some x, played')"
  shows "\<exists>songs. cat e = Some songs \<and> x \<in> set songs"
proof (cases "cat e")
  case None
  with assms show ?thesis by (simp add: get_next_song_def)
next
  case (Some songs)
  show ?thesis
  proof (cases "songs = []")
    case True
    with assms Some show ?thesis by (simp add: get_next_song_def)
  next
    case False
    with assms Some obtain seen where
      "random_choice r (filter (\<lambda>y. y \<notin> set seen) (remdups songs)) = Inr x"
      by (auto simp: get_next_song_def Let_def split: option.splits sum.splits)
    then have "x \<in> set (filter (\<lambda>y. y \<notin> set seen) (remdups songs))"
      by (rule random_choice_mem)
    with Some show ?thesis by simp
  qed
qed

lemma get_next_song_total:
  assumes "hist_ok cat played e"
  shows "\<exists>c played'. get_next_song cat r played e = Inr (c, played') \<and>
           (\<forall>e'. hist_ok cat played e' \<longrightarrow> hist_ok cat played' e')"
proof (cases "cat e")
  case None
  then show ?thesis by (simp add: get_next_song_def)
next
  case (Some songs)
  show ?thesis
  proof (cases "songs = []")
    case True
    then show ?thesis using Some by (simp add: get_next_song_def)
  next
    case False
    with assms Some obtain seen where seen: "played e = Some seen" "distinct songs"
      "distinct seen" "set seen \<subseteq> set songs"
      by (auto simp: hist_ok_def split: option.splits)
    have le: "length seen \<le> length songs" using seen by (intro seen_length_le)
    show ?thesis
    proof (cases "length seen = length songs")
      case True
      let ?c = "songs ! (r mod length songs)"
      have g: "get_next_song cat r played e = Inr (Some ?c, played(e \<mapsto> [?c]))"
        using Some seen(1,2) False True by (rule get_next_song_reset)
      have "?c \<in> set songs" using False by simp
      then have "\<forall>e'. hist_ok cat played e' \<longrightarrow> hist_ok cat (played(e \<mapsto> [?c])) e'"
        using Some seen by (auto simp: hist_ok_def split: option.splits)
      with g show ?thesis by blast
    next
      case neq: False
      with le have "length seen < length songs" by simp
      from get_next_song_mid [of cat e songs played seen r] Some seen this obtain c where
        c: "c \<in> set songs" "c \<notin> set seen"
           "get_next_song cat r played e = Inr (Some c, played(e \<mapsto> seen @ [c]))"
        by blast
      have "\<forall>e'. hist_ok cat played e' \<longrightarrow> hist_ok cat (played(e \<mapsto> seen @ [c])) e'"
        using Some seen c(1,2) by (auto simp: hist_ok_def split: option.splits)
      with c(3) show ?thesis by blast
    qed
  qed
qed

lemma hist_ok_init:
  "\<forall>ss. cat e = Some ss \<longrightarrow> distinct ss \<Longrightarrow> hist_ok cat (init_played cat) e"
  by (auto simp: hist_ok_def init_played_def split: option.splits)

lemma hist_ok_size: "hist_ok cat played e \<Longrightarrow> hist_size played e \<le> cat_size cat e"
  by (auto simp: hist_ok_def hist_size_def cat_size_def seen_length_le split: option.splits)

lemma emotion_to_songs_distinct: "\<forall>e ss. emotion_to_songs e = Some ss \<longrightarrow> distinct ss"
  by (auto simp: emotion_to_songs_def split: if_splits)

lemma pick_seq_total:
  "\<forall>e. hist_ok cat played e \<Longrightarrow>
     \<exists>played'. pick_seq cat reqs played = Inr played' \<and> (\<forall>e. hist_ok cat played' e)"
proof (induction reqs arbitrary: played)
  case Nil
  then show ?case by simp
next
  case (Cons q reqs)
  obtain e r where q: "q = (e, r)" by (cases q)
  from Cons.prems have "hist_ok cat played e" by blast
  from get_next_song_total [OF this, of r] obtain c played1 where
    g: "get_next_song cat r played e = Inr (c, played1)"
    and ok: "\<forall>e'. hist_ok cat played e' \<longrightarrow> hist_ok cat played1 e'"
    by blast
  from ok Cons.prems have "\<forall>e. hist_ok cat played1 e" by blast
  from Cons.IH [OF this] obtain played' where
    "pick_seq cat reqs played1 = Inr played'" "\<forall>e. hist_ok cat played' e"
    by blast
  then show ?case using q g by simp
qed

lemma picks_mid:
  assumes "cat e = Some songs" "distinct songs"
  shows "played e = Some seen \<Longrightarrow> distinct seen \<Longrightarrow> set seen \<subseteq> set songs \<Longrightarrow>
     length seen + length rs \<le> length songs \<Longrightarrow>
     \<exists>cs. picks cat e rs played = Inr (map Some cs, played(e \<mapsto> seen @ cs)) \<and>
          distinct (seen @ cs) \<and> set (seen @ cs) \<subseteq> set songs \<and> length cs = length rs"
proof (induction rs arbitrary: played seen)
  case Nil
  then have "played(e \<mapsto> seen) = played" by (simp add: fun_upd_idem)
  with Nil show ?case by (intro exI [of _ "[]"]) simp
next
  case (Cons r rs)
  then have lt: "length seen < length songs" by simp
  from get_next_song_mid [of cat e songs played seen r] assms Cons.prems(1-3) lt
  obtain c where c: "c \<in> set songs" "c \<notin> set seen"
    "get_next_song cat r played e = Inr (Some c, played(e \<mapsto> seen @ [c]))"
    by blast
  let ?p = "played(e \<mapsto> seen @ [c])"
  have "\<exists>cs. picks cat e rs ?p = Inr (map Some cs, ?p(e \<mapsto> (seen @ [c]) @ cs)) \<and>
          distinct ((seen @ [c]) @ cs) \<and> set ((seen @ [c]) @ cs) \<subseteq> set songs \<and>
          length cs = length rs"
    using Cons.prems c(1,2) by (intro Cons.IH) auto
  then obtain cs where cs: "picks cat e rs ?p = Inr (map Some cs, ?p(e \<mapsto> (seen @ [c]) @ cs))"
    "distinct ((seen @ [c]) @ cs)" "set ((seen @ [c]) @ cs) \<subseteq> set songs" "length cs = length rs"
    by blast
  have "picks cat e (r # rs) played = Inr (map Some (c # cs), played(e \<mapsto> seen @ (c # cs)))"
    using c(3) cs(1) by simp
  moreover have "distinct (seen @ (c # cs))" "set (seen @ (c # cs)) \<subseteq> set songs"
    "length (c # cs) = length (r # rs)"
    using cs(2-4) by auto
  ultimately show ?case by blast
qed

subsection \<open>One rotation cycle\<close>

text \<open>
  C1. In a category with N \<ge> 1 pairwise different songs, N consecutive calls of
  \<open>get_next_song\<close> that start from the empty history raise nothing and return N
  different songs, which together are the whole catalogue of the category; the
  histories of the other categories are untouched. After them every song of the
  category can be returned again by the next call, which restarts the history with it.
  This holds for every sequence of random draws.
\<close>

theorem rotation_cycle:
  assumes "cat e = Some songs" "songs \<noteq> []" "distinct songs" "played e = Some []"
    "length rs = length songs"
  shows "\<exists>cs. picks cat e rs played = Inr (map Some cs, played(e \<mapsto> cs)) \<and>
           length cs = length songs \<and> distinct cs \<and> set cs = set songs \<and>
           (\<forall>x\<in>set songs. \<exists>r. get_next_song cat r (played(e \<mapsto> cs)) e
                                 = Inr (Some x, played(e \<mapsto> [x])))"
proof -
  from picks_mid [of cat e songs played "[]" rs] assms
  obtain cs where cs: "picks cat e rs played = Inr (map Some cs, played(e \<mapsto> cs))"
    "distinct cs" "set cs \<subseteq> set songs" "length cs = length rs"
    by auto
  have "card (set cs) = card (set songs)"
    using cs(2,4) assms(3,5) by (simp add: distinct_card)
  with cs(3) have eq: "set cs = set songs"
    by (simp add: card_subset_eq)
  have again: "\<exists>r. get_next_song cat r (played(e \<mapsto> cs)) e = Inr (Some x, played(e \<mapsto> [x]))"
    if "x \<in> set songs" for x
  proof -
    from that obtain i where i: "i < length songs" "songs ! i = x"
      by (auto simp: in_set_conv_nth)
    have "get_next_song cat i (played(e \<mapsto> cs)) e
            = Inr (Some (songs ! (i mod length songs)),
                   (played(e \<mapsto> cs))(e \<mapsto> [songs ! (i mod length songs)]))"
      using assms(1,2,3,5) cs(4)
        get_next_song_reset [of cat e songs "played(e \<mapsto> cs)" cs i] by simp
    with i show ?thesis by auto
  qed
  have "length cs = length songs" using cs(4) assms(5) by simp
  with cs(1,2) eq again show ?thesis by (intro exI [of _ cs]) simp
qed

theorem rotation_cycle_witness:
  "\<exists>cs. picks emotion_to_songs ''happy'' [0, 0] (init_played emotion_to_songs)
            = Inr (map Some cs, (init_played emotion_to_songs)(''happy'' \<mapsto> cs)) \<and>
        length cs = 2 \<and> distinct cs \<and> set cs = {''happy1.mp3'', ''happy2.mp3''} \<and>
        (\<exists>r. get_next_song emotion_to_songs r
                ((init_played emotion_to_songs)(''happy'' \<mapsto> cs)) ''happy''
              = Inr (Some ''happy2.mp3'',
                     (init_played emotion_to_songs)(''happy'' \<mapsto> [''happy2.mp3''])))"
proof -
  have h1: "emotion_to_songs ''happy'' = Some [''happy1.mp3'', ''happy2.mp3'']"
    by (simp add: emotion_to_songs_def)
  have h2: "[''happy1.mp3'', ''happy2.mp3''] \<noteq> []" by simp
  have h3: "distinct [''happy1.mp3'', ''happy2.mp3'']" by simp
  have h4: "init_played emotion_to_songs ''happy'' = Some []"
    by (simp add: init_played_def emotion_to_songs_def)
  have h5: "length [0::nat, 0] = length [''happy1.mp3'', ''happy2.mp3'']" by simp
  from rotation_cycle [of emotion_to_songs "''happy''" "[''happy1.mp3'', ''happy2.mp3'']"
      "init_played emotion_to_songs" "[0, 0]", OF h1 h2 h3 h4 h5]
  obtain cs where cs: "picks emotion_to_songs ''happy'' [0, 0] (init_played emotion_to_songs)
            = Inr (map Some cs, (init_played emotion_to_songs)(''happy'' \<mapsto> cs))"
    "length cs = length [''happy1.mp3'', ''happy2.mp3'']" "distinct cs"
    "set cs = set [''happy1.mp3'', ''happy2.mp3'']"
    and again: "\<forall>x\<in>set [''happy1.mp3'', ''happy2.mp3''].
       \<exists>r. get_next_song emotion_to_songs r
              ((init_played emotion_to_songs)(''happy'' \<mapsto> cs)) ''happy''
            = Inr (Some x, (init_played emotion_to_songs)(''happy'' \<mapsto> [x]))"
    by blast
  have "''happy2.mp3'' \<in> set [''happy1.mp3'', ''happy2.mp3'']" by simp
  with again have "\<exists>r. get_next_song emotion_to_songs r
              ((init_played emotion_to_songs)(''happy'' \<mapsto> cs)) ''happy''
            = Inr (Some ''happy2.mp3'',
                   (init_played emotion_to_songs)(''happy'' \<mapsto> [''happy2.mp3'']))"
    by (rule bspec)
  with cs show ?thesis by (intro exI [of _ cs]) simp
qed

subsection \<open>Bounded history\<close>

text \<open>
  C7. When the songs of every category are pairwise different, every sequence of calls
  of \<open>get_next_song\<close> from the initial history runs without an error, and afterwards
  the history of each category is no longer than its catalogue. Where the two lengths
  are equal (and positive), the next call for that category empties the history before
  it chooses: the new history holds the chosen song alone, and each song of the category
  is chosen by some draw.
\<close>

theorem history_bounded:
  assumes "\<forall>e ss. cat e = Some ss \<longrightarrow> distinct ss"
  shows "\<exists>played'. pick_seq cat reqs (init_played cat) = Inr played' \<and>
     (\<forall>e. hist_size played' e \<le> cat_size cat e) \<and>
     (\<forall>e r. 0 < cat_size cat e \<and> hist_size played' e = cat_size cat e \<longrightarrow>
        (\<exists>x. get_next_song cat r played' e = Inr (Some x, played'(e \<mapsto> [x])))) \<and>
     (\<forall>e songs x. cat e = Some songs \<and> x \<in> set songs \<and> hist_size played' e = cat_size cat e \<longrightarrow>
        (\<exists>r. get_next_song cat r played' e = Inr (Some x, played'(e \<mapsto> [x]))))"
proof -
  have "\<forall>e. hist_ok cat (init_played cat) e"
    using assms by (simp add: hist_ok_init)
  from pick_seq_total [OF this] obtain played' where
    p: "pick_seq cat reqs (init_played cat) = Inr played'" and ok: "\<forall>e. hist_ok cat played' e"
    by blast
  have bound: "\<forall>e. hist_size played' e \<le> cat_size cat e"
    using ok by (simp add: hist_ok_size)
  have full: "\<exists>songs seen. cat e = Some songs \<and> played' e = Some seen \<and> distinct songs \<and>
                songs \<noteq> [] \<and> length seen = length songs"
    if "0 < cat_size cat e" "hist_size played' e = cat_size cat e" for e
    using that ok [rule_format, of e]
    by (auto simp: hist_ok_def hist_size_def cat_size_def split: option.splits)
  have reset: "\<exists>x. get_next_song cat r played' e = Inr (Some x, played'(e \<mapsto> [x]))"
    if "0 < cat_size cat e" "hist_size played' e = cat_size cat e" for e r
  proof -
    from full [OF that] obtain songs seen where
      "cat e = Some songs" "played' e = Some seen" "distinct songs" "songs \<noteq> []"
      "length seen = length songs"
      by blast
    then have "get_next_song cat r played' e
        = Inr (Some (songs ! (r mod length songs)), played'(e \<mapsto> [songs ! (r mod length songs)]))"
      by (rule get_next_song_reset)
    then show ?thesis by blast
  qed
  have any: "\<exists>r. get_next_song cat r played' e = Inr (Some x, played'(e \<mapsto> [x]))"
    if "cat e = Some songs" "x \<in> set songs" "hist_size played' e = cat_size cat e" for e songs x
  proof -
    from that(1,2) have "0 < cat_size cat e" by (auto simp: cat_size_def)
    from full [OF this that(3)] that(1) obtain seen where
      s: "played' e = Some seen" "distinct songs" "songs \<noteq> []" "length seen = length songs"
      by auto
    from that(2) obtain i where i: "i < length songs" "songs ! i = x"
      by (auto simp: in_set_conv_nth)
    have "get_next_song cat i played' e
        = Inr (Some (songs ! (i mod length songs)), played'(e \<mapsto> [songs ! (i mod length songs)]))"
      using that(1) s by (rule get_next_song_reset)
    with i show ?thesis by auto
  qed
  from p bound reset any show ?thesis by blast
qed

theorem history_bounded_witness:
  "\<exists>x. pick_seq emotion_to_songs [(''happy'', 0), (''sad'', 1), (''happy'', 5)]
          (init_played emotion_to_songs)
        = Inr ((init_played emotion_to_songs)
                 (''happy'' \<mapsto> [''happy1.mp3'', ''happy2.mp3''], ''sad'' \<mapsto> [''sad2.mp3''])) \<and>
       get_next_song emotion_to_songs 7
         ((init_played emotion_to_songs)
            (''happy'' \<mapsto> [''happy1.mp3'', ''happy2.mp3''], ''sad'' \<mapsto> [''sad2.mp3'']))
         ''happy''
        = Inr (Some x, (init_played emotion_to_songs)
                 (''happy'' \<mapsto> [''happy1.mp3'', ''happy2.mp3''], ''sad'' \<mapsto> [''sad2.mp3''],
                  ''happy'' \<mapsto> [x]))"
proof -
  let ?reqs = "[(''happy'', 0::nat), (''sad'', 1), (''happy'', 5)]"
  let ?p = "(init_played emotion_to_songs)
              (''happy'' \<mapsto> [''happy1.mp3'', ''happy2.mp3''], ''sad'' \<mapsto> [''sad2.mp3''])"
  have run: "pick_seq emotion_to_songs ?reqs (init_played emotion_to_songs) = Inr ?p"
    by (simp add: get_next_song_def emotion_to_songs_def init_played_def random_choice_def
        Let_def fun_upd_twist)
  from history_bounded [OF emotion_to_songs_distinct, of ?reqs]
  obtain played' where
    p: "pick_seq emotion_to_songs ?reqs (init_played emotion_to_songs) = Inr played'"
    and reset: "\<forall>e r. 0 < cat_size emotion_to_songs e \<and>
        hist_size played' e = cat_size emotion_to_songs e \<longrightarrow>
        (\<exists>x. get_next_song emotion_to_songs r played' e = Inr (Some x, played'(e \<mapsto> [x])))"
    by blast
  from p run have eq: "played' = ?p" by simp
  have full: "0 < cat_size emotion_to_songs ''happy'' \<and>
      hist_size ?p ''happy'' = cat_size emotion_to_songs ''happy''"
    by (simp add: cat_size_def hist_size_def emotion_to_songs_def)
  from reset eq full
  have "\<exists>x. get_next_song emotion_to_songs 7 ?p ''happy'' = Inr (Some x, ?p(''happy'' \<mapsto> [x]))"
    by blast
  with run show ?thesis by blast
qed

subsection \<open>Unknown and empty categories\<close>

text \<open>
  C6. For a category whose catalogue entry is absent or empty, \<open>get_next_song\<close>
  returns None, raises nothing, and leaves the whole history as it was.
\<close>

theorem get_next_song_no_songs:
  "cat e = None \<or> cat e = Some [] \<Longrightarrow> get_next_song cat r played e = Inr (None, played)"
  by (auto simp: get_next_song_def)

theorem get_next_song_no_songs_witness:
  "get_next_song emotion_to_songs 3 (init_played emotion_to_songs) ''fear''
     = Inr (None, init_played emotion_to_songs)
   \<and> get_next_song (emotion_to_songs(''fear'' \<mapsto> [])) 3 (init_played emotion_to_songs) ''fear''
     = Inr (None, init_played emotion_to_songs)"
proof -
  have a: "emotion_to_songs ''fear'' = None \<or> emotion_to_songs ''fear'' = Some []"
    by (simp add: emotion_to_songs_def)
  have b: "(emotion_to_songs(''fear'' \<mapsto> [])) ''fear'' = None
           \<or> (emotion_to_songs(''fear'' \<mapsto> [])) ''fear'' = Some []"
    by simp
  show ?thesis
    using get_next_song_no_songs [of emotion_to_songs "''fear''", OF a]
      get_next_song_no_songs [of "emotion_to_songs(''fear'' \<mapsto> [])" "''fear''", OF b]
    by simp
qed

subsection \<open>The detection tick\<close>

text \<open>
  C2. A detection tick in a state with no song assigned and none playing, whose locked
  category has a well-formed history and no song with an empty name, never fails. It
  records the detected emotion and the confidence, locks the detected emotion
  (\<open>''neutral''\<close> when the detected label is empty), and takes the answer of
  \<open>get_next_song\<close> for the locked category together with its new history. If that
  answer is a song whose file exists, the song is recorded and \<open>song_assigned\<close> is
  set; otherwise \<open>current_song\<close> is None and \<open>song_assigned\<close> is False.
  \<open>song_playing\<close> stays False.
\<close>

theorem detect_tick_idle:
  assumes idle: "\<not> song_assigned s" "\<not> song_playing s"
    and locked: "locked = (if d = [] then ''neutral'' else d)"
    and ok: "hist_ok cat (played_songs s) locked"
    and names: "\<forall>ss. cat locked = Some ss \<longrightarrow> [] \<notin> set ss"
  shows "\<exists>chosen played'.
     get_next_song cat r (played_songs s) locked = Inr (chosen, played') \<and>
     detect_tick cat d c fx r s =
       Inr (s\<lparr>next_emotion := Some d, current_confidence := c,
              current_emotion := Some locked, played_songs := played',
              current_song := (case chosen of None \<Rightarrow> None
                               | Some x \<Rightarrow> if fx x then Some x else None),
              song_assigned := (case chosen of None \<Rightarrow> False | Some x \<Rightarrow> fx x)\<rparr>)"
proof -
  from get_next_song_total [OF ok, of r] obtain chosen played' where
    g: "get_next_song cat r (played_songs s) locked = Inr (chosen, played')"
    by blast
  have ne: "x \<noteq> []" if "chosen = Some x" for x
  proof -
    from g that have "\<exists>songs. cat locked = Some songs \<and> x \<in> set songs"
      by (auto dest: get_next_song_from_catalog)
    with names show ?thesis by auto
  qed
  have "detect_tick cat d c fx r s =
       Inr (s\<lparr>next_emotion := Some d, current_confidence := c,
              current_emotion := Some locked, played_songs := played',
              current_song := (case chosen of None \<Rightarrow> None
                               | Some x \<Rightarrow> if fx x then Some x else None),
              song_assigned := (case chosen of None \<Rightarrow> False | Some x \<Rightarrow> fx x)\<rparr>)"
    using idle g ne locked
    by (cases chosen) (auto simp: detect_tick_def or_neutral_def)
  with g show ?thesis by blast
qed

theorem detect_tick_idle_witness:
  "detect_tick emotion_to_songs [] 0 (\<lambda>f. f = ''neutral2.mp3'') 1 (init_state emotion_to_songs) =
     Inr ((init_state emotion_to_songs)
           \<lparr>next_emotion := Some [], current_confidence := 0,
            current_emotion := Some ''neutral'',
            played_songs := (init_played emotion_to_songs)(''neutral'' \<mapsto> [''neutral2.mp3'']),
            current_song := Some ''neutral2.mp3'', song_assigned := True\<rparr>) \<and>
   detect_tick emotion_to_songs [] 0 (\<lambda>f. False) 1 (init_state emotion_to_songs) =
     Inr ((init_state emotion_to_songs)
           \<lparr>next_emotion := Some [], current_confidence := 0,
            current_emotion := Some ''neutral'',
            played_songs := (init_played emotion_to_songs)(''neutral'' \<mapsto> [''neutral2.mp3'']),
            current_song := None, song_assigned := False\<rparr>)"
proof -
  let ?s = "init_state emotion_to_songs"
  have i1: "\<not> song_assigned ?s" and i2: "\<not> song_playing ?s"
    by (simp_all add: init_state_def)
  have l: "''neutral'' = (if ([]::string) = [] then ''neutral'' else [])" by simp
  have ok: "hist_ok emotion_to_songs (played_songs ?s) ''neutral''"
    by (simp add: init_state_def hist_ok_init emotion_to_songs_distinct)
  have nm: "\<forall>ss. emotion_to_songs ''neutral'' = Some ss \<longrightarrow> [] \<notin> set ss"
    by (simp add: emotion_to_songs_def)
  have g: "get_next_song emotion_to_songs 1 (played_songs ?s) ''neutral''
      = Inr (Some ''neutral2.mp3'', (init_played emotion_to_songs)(''neutral'' \<mapsto> [''neutral2.mp3'']))"
    by (simp add: get_next_song_def emotion_to_songs_def init_played_def random_choice_def
        Let_def init_state_def)
  from detect_tick_idle [of ?s "''neutral''" "[]" emotion_to_songs 1 0
        "\<lambda>f. f = ''neutral2.mp3''", OF i1 i2 l ok nm]
  have a: "detect_tick emotion_to_songs [] 0 (\<lambda>f. f = ''neutral2.mp3'') 1 ?s =
     Inr (?s\<lparr>next_emotion := Some [], current_confidence := 0,
            current_emotion := Some ''neutral'',
            played_songs := (init_played emotion_to_songs)(''neutral'' \<mapsto> [''neutral2.mp3'']),
            current_song := Some ''neutral2.mp3'', song_assigned := True\<rparr>)"
    unfolding g by simp
  from detect_tick_idle [of ?s "''neutral''" "[]" emotion_to_songs 1 0
        "\<lambda>f. False", OF i1 i2 l ok nm]
  have b: "detect_tick emotion_to_songs [] 0 (\<lambda>f. False) 1 ?s =
     Inr (?s\<lparr>next_emotion := Some [], current_confidence := 0,
            current_emotion := Some ''neutral'',
            played_songs := (init_played emotion_to_songs)(''neutral'' \<mapsto> [''neutral2.mp3'']),
            current_song := None, song_assigned := False\<rparr>)"
    unfolding g by simp
  from a b show ?thesis by simp
qed

text \<open>
  C4. A detection tick in a state with a song assigned or playing changes
  \<open>next_emotion\<close> and \<open>current_confidence\<close> and nothing else: the locked emotion,
  the song, both flags and the history are as before.
\<close>

theorem detect_tick_busy:
  "song_assigned s \<or> song_playing s \<Longrightarrow>
     detect_tick cat d c fx r s = Inr (s\<lparr>next_emotion := Some d, current_confidence := c\<rparr>)"
  by (auto simp: detect_tick_def)

theorem detect_tick_busy_witness:
  "detect_tick emotion_to_songs ''sad'' (9 / 10) (\<lambda>f. True) 0
     ((init_state emotion_to_songs)
        \<lparr>current_emotion := Some ''happy'', current_song := Some ''happy1.mp3'',
         song_assigned := True\<rparr>)
   = Inr ((init_state emotion_to_songs)
        \<lparr>current_emotion := Some ''happy'', next_emotion := Some ''sad'',
         current_confidence := 9 / 10, current_song := Some ''happy1.mp3'',
         song_assigned := True\<rparr>)"
proof -
  let ?s = "(init_state emotion_to_songs)
        \<lparr>current_emotion := Some ''happy'', current_song := Some ''happy1.mp3'',
         song_assigned := True\<rparr>"
  have h: "song_assigned ?s \<or> song_playing ?s" by simp
  show ?thesis
    using detect_tick_busy [of ?s emotion_to_songs "''sad''" "9 / 10" "\<lambda>f. True" 0, OF h]
    by (simp add: init_state_def)
qed

subsection \<open>Steps preserve the assignment invariant and never fail\<close>

lemma step_assigned_iff_song:
  assumes "song_assigned s \<longleftrightarrow> current_song s \<noteq> None" "step cat ev s = Inr s'"
  shows "song_assigned s' \<longleftrightarrow> current_song s' \<noteq> None"
proof (cases ev)
  case (Detect d c fx r)
  with assms show ?thesis
    by (auto simp: detect_tick_def Let_def split: if_splits sum.splits option.splits)
next
  case ClientStarted
  with assms show ?thesis by (auto simp: song_started_def)
next
  case ClientEnded
  with assms show ?thesis by (auto simp: song_ended_def)
qed

lemma detect_tick_total:
  assumes "\<forall>e. hist_ok cat (played_songs s) e"
  shows "\<exists>s'. detect_tick cat d c fx r s = Inr s' \<and> (\<forall>e. hist_ok cat (played_songs s') e)"
proof (cases "\<not> song_assigned s \<and> \<not> song_playing s")
  case True
  from assms have "hist_ok cat (played_songs s) (or_neutral (Some d))" by blast
  from get_next_song_total [OF this, of r] obtain chosen played' where
    g: "get_next_song cat r (played_songs s) (or_neutral (Some d)) = Inr (chosen, played')"
    and ok: "\<forall>e'. hist_ok cat (played_songs s) e' \<longrightarrow> hist_ok cat played' e'"
    by blast
  from ok assms have "\<forall>e. hist_ok cat played' e" by blast
  with True g show ?thesis
    by (cases chosen) (auto simp: detect_tick_def Let_def)
next
  case False
  with assms show ?thesis by (auto simp: detect_tick_def)
qed

lemma step_total:
  assumes "\<forall>e. hist_ok cat (played_songs s) e"
  shows "\<exists>s'. step cat ev s = Inr s' \<and> (\<forall>e. hist_ok cat (played_songs s') e)"
proof (cases ev)
  case (Detect d c fx r)
  with detect_tick_total [OF assms] show ?thesis by simp
next
  case ClientStarted
  with assms show ?thesis by (simp add: song_started_def)
next
  case ClientEnded
  with assms show ?thesis by (simp add: song_ended_def)
qed

lemma run_total:
  "\<forall>e. hist_ok cat (played_songs s) e \<Longrightarrow> (song_assigned s \<longleftrightarrow> current_song s \<noteq> None) \<Longrightarrow>
     \<exists>s'. run cat evs s = Inr s' \<and> (\<forall>e. hist_ok cat (played_songs s') e) \<and>
          (song_assigned s' \<longleftrightarrow> current_song s' \<noteq> None)"
proof (induction evs arbitrary: s)
  case Nil
  then show ?case by simp
next
  case (Cons ev evs)
  from step_total [OF Cons.prems(1), of ev] obtain s1 where
    s1: "step cat ev s = Inr s1" "\<forall>e. hist_ok cat (played_songs s1) e"
    by blast
  from step_assigned_iff_song [OF Cons.prems(2) s1(1)]
  have "song_assigned s1 \<longleftrightarrow> current_song s1 \<noteq> None" .
  from Cons.IH [OF s1(2) this] s1(1) show ?case by simp
qed

subsection \<open>The notifications of the client\<close>

lemma run_assigned_iff_song:
  "(song_assigned s \<longleftrightarrow> current_song s \<noteq> None) \<Longrightarrow> run cat evs s = Inr s' \<Longrightarrow>
     (song_assigned s' \<longleftrightarrow> current_song s' \<noteq> None)"
proof (induction evs arbitrary: s)
  case Nil
  then show ?case by simp
next
  case (Cons ev evs)
  from Cons.prems(2) obtain s1 where s1: "step cat ev s = Inr s1" "run cat evs s1 = Inr s'"
    by (auto split: sum.splits)
  from step_assigned_iff_song [OF Cons.prems(1) s1(1)]
  have "song_assigned s1 \<longleftrightarrow> current_song s1 \<noteq> None" .
  from Cons.IH [OF this s1(2)] show ?case .
qed

text \<open>
  C3. From every state, \<open>song_ended\<close> leaves \<open>song_assigned\<close> and \<open>song_playing\<close>
  False and \<open>current_song\<close> None, keeps \<open>current_emotion\<close>, and answers
  \<open>{"ok": true}\<close>. In a state with both flags False and no song it changes nothing;
  every state with both flags False that the machine reaches from its initial state is
  such a state.
\<close>

theorem song_ended_clears:
  "song_assigned (fst (song_ended s)) = False \<and>
   song_playing (fst (song_ended s)) = False \<and>
   current_song (fst (song_ended s)) = None \<and>
   current_emotion (fst (song_ended s)) = current_emotion s \<and>
   snd (song_ended s) = [(''ok'', True)] \<and>
   (\<not> song_assigned s \<and> \<not> song_playing s \<and> current_song s = None
      \<longrightarrow> fst (song_ended s) = s) \<and>
   (run cat evs (init_state cat) = Inr s \<and> \<not> song_assigned s \<and> \<not> song_playing s
      \<longrightarrow> fst (song_ended s) = s)"
proof -
  have idle: "fst (song_ended s) = s"
    if "\<not> song_assigned s" "\<not> song_playing s" "current_song s = None"
    using that by (simp add: song_ended_def)
  have "current_song s = None" if "run cat evs (init_state cat) = Inr s" "\<not> song_assigned s"
  proof -
    have "song_assigned (init_state cat) \<longleftrightarrow> current_song (init_state cat) \<noteq> None"
      by (simp add: init_state_def)
    from run_assigned_iff_song [OF this that(1)] that(2) show ?thesis by simp
  qed
  with idle show ?thesis by (simp add: song_ended_def)
qed

theorem song_ended_clears_witness:
  "song_assigned (fst (song_ended (init_state emotion_to_songs))) = False \<and>
   fst (song_ended (init_state emotion_to_songs)) = init_state emotion_to_songs \<and>
   snd (song_ended (init_state emotion_to_songs)) = [(''ok'', True)]"
  using song_ended_clears [of "init_state emotion_to_songs" emotion_to_songs "[]"]
  by (simp add: init_state_def)

text \<open>
  C5. From every state, \<open>song_started\<close> sets \<open>song_playing\<close> and changes no other
  variable, and answers \<open>{"ok": true}\<close>. A second notification changes nothing
  more, and in a state that is already playing the notification changes nothing.
\<close>

theorem song_started_sets_playing:
  "fst (song_started s) = s\<lparr>song_playing := True\<rparr> \<and>
   song_playing (fst (song_started s)) = True \<and>
   song_assigned (fst (song_started s)) = song_assigned s \<and>
   current_song (fst (song_started s)) = current_song s \<and>
   current_emotion (fst (song_started s)) = current_emotion s \<and>
   snd (song_started s) = [(''ok'', True)] \<and>
   fst (song_started (fst (song_started s))) = fst (song_started s) \<and>
   (song_playing s \<longrightarrow> fst (song_started s) = s)"
  by (simp add: song_started_def)

theorem song_started_sets_playing_witness:
  "fst (song_started ((init_state emotion_to_songs)\<lparr>song_playing := True\<rparr>))
     = (init_state emotion_to_songs)\<lparr>song_playing := True\<rparr> \<and>
   snd (song_started ((init_state emotion_to_songs)\<lparr>song_playing := True\<rparr>)) = [(''ok'', True)]"
  using song_started_sets_playing [of "(init_state emotion_to_songs)\<lparr>song_playing := True\<rparr>"]
  by simp

subsection \<open>The invariant on reachable states\<close>

text \<open>
  C9. Each of the three operations preserves "\<open>song_assigned\<close> holds exactly when
  \<open>current_song\<close> is not None". When the songs of every category are pairwise
  different, every sequence of operations from the initial state runs without an
  error and ends in a state where this holds.
\<close>

theorem assigned_iff_song_invariant:
  assumes "\<forall>e ss. cat e = Some ss \<longrightarrow> distinct ss"
  shows "(\<forall>ev s s'. (song_assigned s \<longleftrightarrow> current_song s \<noteq> None) \<and> step cat ev s = Inr s'
            \<longrightarrow> (song_assigned s' \<longleftrightarrow> current_song s' \<noteq> None)) \<and>
         (\<exists>s'. run cat evs (init_state cat) = Inr s' \<and>
               (song_assigned s' \<longleftrightarrow> current_song s' \<noteq> None))"
proof -
  have a: "\<forall>ev s s'. (song_assigned s \<longleftrightarrow> current_song s \<noteq> None) \<and> step cat ev s = Inr s'
            \<longrightarrow> (song_assigned s' \<longleftrightarrow> current_song s' \<noteq> None)"
    using step_assigned_iff_song by blast
  have "\<forall>e. hist_ok cat (played_songs (init_state cat)) e"
    using assms by (simp add: init_state_def hist_ok_init)
  moreover have "song_assigned (init_state cat) \<longleftrightarrow> current_song (init_state cat) \<noteq> None"
    by (simp add: init_state_def)
  ultimately have "\<exists>s'. run cat evs (init_state cat) = Inr s' \<and>
      (\<forall>e. hist_ok cat (played_songs s') e) \<and> (song_assigned s' \<longleftrightarrow> current_song s' \<noteq> None)"
    by (rule run_total)
  with a show ?thesis by blast
qed

theorem assigned_iff_song_invariant_witness:
  "(\<exists>s'. run emotion_to_songs
          [Detect ''happy'' (7 / 10) (\<lambda>f. True) 0, ClientStarted, ClientEnded,
           Detect ''fear'' (1 / 2) (\<lambda>f. True) 3]
          (init_state emotion_to_songs) = Inr s' \<and>
        (song_assigned s' \<longleftrightarrow> current_song s' \<noteq> None)) \<and>
   (song_assigned (fst (song_ended (init_state emotion_to_songs)))
      \<longleftrightarrow> current_song (fst (song_ended (init_state emotion_to_songs))) \<noteq> None)"
proof -
  let ?evs = "[Detect ''happy'' (7 / 10) (\<lambda>f. True) 0, ClientStarted, ClientEnded,
               Detect ''fear'' (1 / 2) (\<lambda>f. True) 3]"
  let ?s = "init_state emotion_to_songs"
  note inv = assigned_iff_song_invariant [OF emotion_to_songs_distinct, of ?evs]
  have a: "song_assigned ?s \<longleftrightarrow> current_song ?s \<noteq> None"
    by (simp add: init_state_def)
  have b: "step emotion_to_songs ClientEnded ?s = Inr (fst (song_ended ?s))"
    by simp
  from inv a b have "song_assigned (fst (song_ended ?s))
      \<longleftrightarrow> current_song (fst (song_ended ?s)) \<noteq> None"
    by blast
  with inv show ?thesis by blast
qed

subsection \<open>A start notification without an assignment\<close>

lemma run_while_playing:
  "song_playing s \<Longrightarrow> ClientEnded \<notin> set evs \<Longrightarrow>
     \<exists>s'. run cat evs s = Inr s' \<and> song_playing s' \<and> song_assigned s' = song_assigned s \<and>
          current_song s' = current_song s \<and> current_emotion s' = current_emotion s \<and>
          played_songs s' = played_songs s"
proof (induction evs arbitrary: s)
  case Nil
  then show ?case by simp
next
  case (Cons ev evs)
  have "\<exists>s1. step cat ev s = Inr s1 \<and> song_playing s1 \<and> song_assigned s1 = song_assigned s \<and>
          current_song s1 = current_song s \<and> current_emotion s1 = current_emotion s \<and>
          played_songs s1 = played_songs s"
  proof (cases ev)
    case (Detect d c fx r)
    with Cons.prems(1) show ?thesis by (simp add: detect_tick_def)
  next
    case ClientStarted
    with Cons.prems(1) show ?thesis by (simp add: song_started_def)
  next
    case ClientEnded
    with Cons.prems(2) show ?thesis by simp
  qed
  then obtain s1 where s1: "step cat ev s = Inr s1" "song_playing s1"
    "song_assigned s1 = song_assigned s" "current_song s1 = current_song s"
    "current_emotion s1 = current_emotion s" "played_songs s1 = played_songs s"
    by blast
  from Cons.prems(2) have "ClientEnded \<notin> set evs" by simp
  from Cons.IH [OF s1(2) this] s1 show ?case by auto
qed

text \<open>
  C10. After \<open>song_started\<close> in a state with no song assigned, \<open>song_playing\<close>
  holds and \<open>song_assigned\<close> does not; and every sequence of detection ticks and
  further start notifications from there (no \<open>song_ended\<close> among them) runs without
  an error and leaves \<open>song_playing\<close> set, no song assigned, and the locked emotion
  and the history as they were.
\<close>

theorem started_while_idle_blocks:
  assumes "\<not> song_assigned s" "ClientEnded \<notin> set evs"
  shows "song_playing (fst (song_started s)) \<and> \<not> song_assigned (fst (song_started s)) \<and>
         (\<exists>s'. run cat evs (fst (song_started s)) = Inr s' \<and>
               song_playing s' \<and> \<not> song_assigned s' \<and> current_song s' = current_song s \<and>
               current_emotion s' = current_emotion s \<and> played_songs s' = played_songs s)"
proof -
  let ?s1 = "fst (song_started s)"
  have p: "song_playing ?s1" by (simp add: song_started_def)
  from run_while_playing [OF p assms(2), of cat] assms(1) show ?thesis
    by (auto simp: song_started_def)
qed

theorem started_while_idle_blocks_witness:
  "\<exists>s'. run emotion_to_songs
          [Detect ''happy'' (7 / 10) (\<lambda>f. True) 0, ClientStarted,
           Detect ''sad'' (1 / 2) (\<lambda>f. True) 3]
          (fst (song_started (init_state emotion_to_songs))) = Inr s' \<and>
        song_playing s' \<and> \<not> song_assigned s' \<and> current_song s' = None \<and>
        current_emotion s' = None \<and> played_songs s' = init_played emotion_to_songs"
proof -
  have a: "\<not> song_assigned (init_state emotion_to_songs)" by (simp add: init_state_def)
  have b: "ClientEnded \<notin> set [Detect ''happy'' (7 / 10) (\<lambda>f. True) 0, ClientStarted,
           Detect ''sad'' (1 / 2) (\<lambda>f. True) 3]" by simp
  from started_while_idle_blocks [OF a b, of emotion_to_songs]
  show ?thesis by (simp add: init_state_def)
qed

subsection \<open>The stream loop without a camera\<close>

text \<open>
  C8. The branch of the loop for a camera that cannot be opened evaluates the name
  \<open>np\<close>, which the module never binds: the iteration raises NameError instead of
  yielding the blank frame, and the exception ends the generator. An iteration whose
  camera is open and whose frame read fails yields nothing and leaves the state and
  \<open>last_detection\<close> as they were.
\<close>

theorem camera_closed_raises:
  "(\<not> cam_opened t \<longrightarrow> loop_iteration cat t (s, last_detection) = Inl (NameError ''np'')) \<and>
   (cam_opened t \<and> \<not> read_ok t \<longrightarrow>
      loop_iteration cat t (s, last_detection) = Inr (None, s, last_detection))"
  by (simp add: loop_iteration_def global_name_def module_globals_def)

theorem camera_closed_raises_witness:
  "loop_iteration emotion_to_songs
     \<lparr>cam_opened = False, read_ok = False, now = 0, results = [], file_exists = (\<lambda>f. True),
      draw = 0, encode_ok = True\<rparr>
     (init_state emotion_to_songs, 0) = Inl (NameError ''np'') \<and>
   loop_iteration emotion_to_songs
     \<lparr>cam_opened = True, read_ok = False, now = 0, results = [], file_exists = (\<lambda>f. True),
      draw = 0, encode_ok = True\<rparr>
     (init_state emotion_to_songs, 0) = Inr (None, init_state emotion_to_songs, 0)"
  using camera_closed_raises [of "\<lparr>cam_opened = False, read_ok = False, now = 0, results = [],
      file_exists = (\<lambda>f. True), draw = 0, encode_ok = True\<rparr>" emotion_to_songs
      "init_state emotion_to_songs" 0]
    camera_closed_raises [of "\<lparr>cam_opened = True, read_ok = False, now = 0, results = [],
      file_exists = (\<lambda>f. True), draw = 0, encode_ok = True\<rparr>" emotion_to_songs
      "init_state emotion_to_songs" 0]
  by simp

end
